theory Spec2Isabelle
  imports Main
begin

section \<open>JavaScript string primitives used by the streaming renderer\<close>

text \<open>
  Strings are lists of characters. A \<^typ>\<open>char\<close> stands for one code unit in the range
  0..255; the white space of \<^verbatim>\<open>String.prototype.trim\<close> and of the regular
  expression class \<^verbatim>\<open>\s\<close> in that range is TAB, LF, VT, FF, CR, SPACE and NBSP.
\<close>

definition newline :: char where
  "newline = CHR 0x0A"

definition isWhitespace :: "char \<Rightarrow> bool" where
  "isWhitespace c \<longleftrightarrow> c \<in> set [CHR 0x09, CHR 0x0A, CHR 0x0B, CHR 0x0C, CHR 0x0D, CHR 0x20, CHR 0xA0]"

definition isDigit :: "char \<Rightarrow> bool" where
  "isDigit c \<longleftrightarrow> c \<in> set ''0123456789''"

text \<open>\<^verbatim>\<open>s.trim()\<close>: white space removed at both ends.\<close>

definition trim :: "string \<Rightarrow> string" where
  "trim s = rev (dropWhile isWhitespace (rev (dropWhile isWhitespace s)))"

text \<open>\<^verbatim>\<open>s.startsWith(p)\<close>.\<close>

definition startsWith :: "string \<Rightarrow> string \<Rightarrow> bool" where
  "startsWith s p \<longleftrightarrow> take (length p) s = p"

text \<open>
  \<^verbatim>\<open>s.split('\n')\<close>: the pieces between line feeds; the empty string gives one
  empty piece. The accumulator holds the piece being read.
\<close>

fun splitAcc :: "string \<Rightarrow> string \<Rightarrow> string list" where
  "splitAcc acc [] = [acc]"
| "splitAcc acc (c # cs) =
     (if c = newline then acc # splitAcc [] cs else splitAcc (acc @ [c]) cs)"

definition splitLines :: "string \<Rightarrow> string list" where
  "splitLines s = splitAcc [] s"

text \<open>\<^verbatim>\<open>lines.join('\n')\<close>.\<close>

fun joinLines :: "string list \<Rightarrow> string" where
  "joinLines [] = []"
| "joinLines [l] = l"
| "joinLines (l # ls) = l @ newline # joinLines ls"

section \<open>Block splitting\<close>

text \<open>
  The regular expression \<^verbatim>\<open>/^(```|~~~)/\<close> applied to a trimmed line: the captured
  delimiter, if any.
\<close>

definition fenceMatch :: "string \<Rightarrow> string option" where
  "fenceMatch trimmed =
     (if startsWith trimmed ''```'' then Some ''```''
      else if startsWith trimmed ''~~~'' then Some ''~~~''
      else None)"

text \<open>
  The alternatives of \<^verbatim>\<open>blockStarters\<close>, each anchored at the start of the line:
  one to six hashes then white space; a greater-than sign; a list bullet then white
  space; digits, a dot, white space; a fence; a vertical bar.
\<close>

definition headingStart :: "string \<Rightarrow> bool" where
  "headingStart l =
     (let n = length (takeWhile (\<lambda>c. c = CHR ''#'') l); r = dropWhile (\<lambda>c. c = CHR ''#'') l
      in 1 \<le> n \<and> n \<le> 6 \<and> r \<noteq> [] \<and> isWhitespace (hd r))"

definition bulletStart :: "string \<Rightarrow> bool" where
  "bulletStart l =
     (case l of c # d # _ \<Rightarrow> c \<in> set ''-*+'' \<and> isWhitespace d | _ \<Rightarrow> False)"

definition orderedStart :: "string \<Rightarrow> bool" where
  "orderedStart l =
     (let ds = takeWhile isDigit l
      in ds \<noteq> [] \<and> (case dropWhile isDigit l of c # d # _ \<Rightarrow> c = CHR ''.'' \<and> isWhitespace d
                                                | _ \<Rightarrow> False))"

definition blockStarters :: "string \<Rightarrow> bool" where
  "blockStarters l \<longleftrightarrow>
     headingStart l \<or> startsWith l ''>'' \<or> bulletStart l \<or> orderedStart l
     \<or> startsWith l ''```'' \<or> startsWith l ''~~~'' \<or> startsWith l ''|''"

text \<open>
  \<^verbatim>\<open>lines.findIndex((l, idx) => idx > i && l.trim() !== '')\<close> followed by the
  lookup of that line: the first non-blank line among the lines after the current one,
  \<open>None\<close> for \<^verbatim>\<open>null\<close>.
\<close>

definition nextNonBlank :: "string list \<Rightarrow> string option" where
  "nextNonBlank rest = (case filter (\<lambda>l. trim l \<noteq> []) rest of [] \<Rightarrow> None | l # _ \<Rightarrow> Some l)"

text \<open>The local variables of the loop of \<^verbatim>\<open>splitIntoBlocks\<close>.\<close>

record splitter =
  blocks :: "string list"
  currentBlock :: "string list"
  inCodeFence :: bool
  fenceChar :: string

definition splitInit :: splitter where
  "splitInit = \<lparr>blocks = [], currentBlock = [], inCodeFence = False, fenceChar = []\<rparr>"

text \<open>
  One iteration of the loop, for the line \<open>line\<close> with the lines \<open>rest\<close> still to
  come (the look-ahead of the blank-line branch reads them).
\<close>

definition splitStep :: "string \<Rightarrow> string list \<Rightarrow> splitter \<Rightarrow> splitter" where
  "splitStep line rest st =
     (let trimmed = trim line in
      case fenceMatch trimmed of
        Some f \<Rightarrow>
          if \<not> inCodeFence st then
            (let st1 = (if currentBlock st \<noteq> []
                        then st\<lparr>blocks := blocks st @ [joinLines (currentBlock st)],
                                currentBlock := []\<rparr>
                        else st)
             in st1\<lparr>inCodeFence := True, fenceChar := f,
                     currentBlock := currentBlock st1 @ [line]\<rparr>)
          else if startsWith trimmed (fenceChar st) then
            st\<lparr>blocks := blocks st @ [joinLines (currentBlock st @ [line])],
               currentBlock := [], inCodeFence := False, fenceChar := []\<rparr>
          else st\<lparr>currentBlock := currentBlock st @ [line]\<rparr>
      | None \<Rightarrow>
          if inCodeFence st then st\<lparr>currentBlock := currentBlock st @ [line]\<rparr>
          else if trimmed = [] \<and> currentBlock st \<noteq> [] then
            (case nextNonBlank rest of
               None \<Rightarrow> st\<lparr>blocks := blocks st @ [joinLines (currentBlock st)], currentBlock := []\<rparr>
             | Some nextLine \<Rightarrow>
                 if blockStarters nextLine
                 then st\<lparr>blocks := blocks st @ [joinLines (currentBlock st)], currentBlock := []\<rparr>
                 else st\<lparr>currentBlock := currentBlock st @ [line]\<rparr>)
          else st\<lparr>currentBlock := currentBlock st @ [line]\<rparr>)"

text \<open>The \<^verbatim>\<open>for\<close> loop over the lines.\<close>

fun splitLoop :: "string list \<Rightarrow> splitter \<Rightarrow> splitter" where
  "splitLoop [] st = st"
| "splitLoop (line # rest) st = splitLoop rest (splitStep line rest st)"

text \<open>After the loop: a block still being collected is pushed.\<close>

definition splitFinish :: "splitter \<Rightarrow> string list" where
  "splitFinish st =
     (if currentBlock st \<noteq> [] then blocks st @ [joinLines (currentBlock st)] else blocks st)"

definition splitIntoBlocks :: "string \<Rightarrow> string list" where
  "splitIntoBlocks markdown =
     (if markdown = [] then [[]]
      else let bs = splitFinish (splitLoop (splitLines markdown) splitInit)
           in if bs \<noteq> [] then bs else [[]])"

section \<open>Rejoining blocks\<close>

text \<open>
  The pieces of the input that lie between two blocks of the result: one line feed, or
  a blank line with the line feeds around it. After the last block the input may go on
  with a line feed and a blank line.
\<close>

definition blankLine :: "string \<Rightarrow> bool" where
  "blankLine b \<longleftrightarrow> trim b = [] \<and> newline \<notin> set b"

definition isSeparator :: "string \<Rightarrow> bool" where
  "isSeparator s \<longleftrightarrow>
     s = [newline]
     \<or> (2 \<le> length s \<and> hd s = newline \<and> last s = newline \<and> blankLine (butlast (tl s)))"

definition isTrailing :: "string \<Rightarrow> bool" where
  "isTrailing t \<longleftrightarrow> t = [] \<or> (hd t = newline \<and> blankLine (tl t))"

fun rejoin :: "string list \<Rightarrow> string list \<Rightarrow> string" where
  "rejoin [] seps = []"
| "rejoin [b] seps = b"
| "rejoin (b # bs) [] = b @ rejoin bs []"
| "rejoin (b # bs) (s # seps) = b @ s @ rejoin bs seps"

text \<open>
  Auxiliary notions for the loop invariant: every closed block followed by its
  separator, the text of the lines read so far with their line feeds, and the text of
  the block being collected.
\<close>

fun glue :: "string list \<Rightarrow> string list \<Rightarrow> string" where
  "glue (b # bs) (s # seps) = b @ s @ glue bs seps"
| "glue _ _ = []"

definition consumed :: "string list \<Rightarrow> string" where
  "consumed ls = concat (map (\<lambda>l. l @ [newline]) ls)"

definition pendingText :: "splitter \<Rightarrow> string" where
  "pendingText st = (if currentBlock st = [] then [] else joinLines (currentBlock st) @ [newline])"

definition splitInv :: "string list \<Rightarrow> splitter \<Rightarrow> bool" where
  "splitInv seen st \<longleftrightarrow>
     (\<exists>seps. length seps = length (blocks st) \<and> (\<forall>s\<in>set seps. isSeparator s)
        \<and> consumed seen = glue (blocks st) seps @ pendingText st)"

section \<open>The incremental render controller\<close>

text \<open>
  The markdown engine \<^verbatim>\<open>md.render\<close> is external: every operation takes it as
  the parameter \<open>render\<close>. The browser's HTML parser is the parameter \<open>parse\<close>: the
  child nodes created when an HTML string is assigned to \<^verbatim>\<open>innerHTML\<close>. A
  container is the list of its child nodes, \<open>None\<close> while the template ref is
  \<^verbatim>\<open>null\<close>. Nodes are tracked up to the \<^verbatim>\<open>first-block\<close> and
  \<^verbatim>\<open>last-block\<close> classes that \<^verbatim>\<open>applyMarginClasses\<close> toggles and up to the
  in-place decoration of \<^verbatim>\<open>highlightAllBlocks\<close>; neither adds, removes or moves
  a child, so the deferred calls of \<^verbatim>\<open>applyMarginClasses\<close> are left out of the
  queue and the highlighting pass leaves the state as it is.
\<close>

datatype event = Start | Complete

text \<open>The callbacks handed to \<^verbatim>\<open>nextTick\<close>.\<close>

datatype task = FlushTask | FinalizeTask string | HighlightTask

record 'n controller =
  staticContainer :: "'n list option"
  streamingContainer :: "'n list option"
  streamingHtml :: string
  boundHtml :: string
  staticBlockCount :: nat
  tailMarkdown :: string
  prevContent :: string
  lastRenderKey :: string
  hasEmittedStart :: bool
  lastCompleteBlockCount :: nat
  deferred :: "task list"
  emitted :: "event list"

text \<open>
  The state of a component instance when its setup code has run: both refs
  \<^verbatim>\<open>null\<close>, the module-level variables at their initial values.
\<close>

definition initialState :: "'n controller" where
  "initialState =
     \<lparr>staticContainer = None, streamingContainer = None, streamingHtml = [], boundHtml = [],
      staticBlockCount = 0, tailMarkdown = [], prevContent = [], lastRenderKey = [],
      hasEmittedStart = False, lastCompleteBlockCount = 0, deferred = [], emitted = []\<rparr>"

definition setInnerHTML :: "(string \<Rightarrow> 'n list) \<Rightarrow> string \<Rightarrow> 'n list" where
  "setInnerHTML parse html = (if html = [] then [] else parse html)"

definition emit :: "event \<Rightarrow> 'n controller \<Rightarrow> 'n controller" where
  "emit e st = st\<lparr>emitted := emitted st @ [e]\<rparr>"

definition nextTick :: "task \<Rightarrow> 'n controller \<Rightarrow> 'n controller" where
  "nextTick t st = st\<lparr>deferred := deferred st @ [t]\<rparr>"

definition renderBlockHtml :: "(string \<Rightarrow> string) \<Rightarrow> string \<Rightarrow> string" where
  "renderBlockHtml render mdText =
     (if mdText = [] \<or> length (trim mdText) = 0 then [] else render mdText)"

text \<open>
  The \<^verbatim>\<open>while (streamingContainer.value.firstChild)\<close> loop of
  \<^verbatim>\<open>flushToStatic\<close>: \<^verbatim>\<open>appendChild\<close> takes the first child out of the
  streaming container and puts it last in the static one.
\<close>

fun moveChildren :: "'n list \<Rightarrow> 'n list \<Rightarrow> nat \<Rightarrow> 'n list \<times> 'n list \<times> nat" where
  "moveChildren [] stat cnt = ([], stat, cnt)"
| "moveChildren (n # ns) stat cnt = moveChildren ns (stat @ [n]) (Suc cnt)"

definition flushToStatic :: "'n controller \<Rightarrow> 'n controller" where
  "flushToStatic st =
     (case (staticContainer st, streamingContainer st) of
        (Some stat, Some strm) \<Rightarrow>
          (case moveChildren strm stat (staticBlockCount st) of
             (strm', stat', cnt') \<Rightarrow>
               st\<lparr>staticContainer := Some stat', streamingContainer := Some strm',
                   staticBlockCount := cnt'\<rparr>)
      | _ \<Rightarrow> st)"

definition setStreamingHtml :: "string \<Rightarrow> 'n controller \<Rightarrow> 'n controller" where
  "setStreamingHtml html st =
     (if lastRenderKey st = html then st
      else st\<lparr>lastRenderKey := html, streamingHtml := html\<rparr>)"

definition finalizeAll :: "(string \<Rightarrow> string) \<Rightarrow> string \<Rightarrow> 'n controller \<Rightarrow> 'n controller" where
  "finalizeAll render fullText st =
     (case staticContainer st of
        None \<Rightarrow> st
      | Some _ \<Rightarrow>
          (let st1 = st\<lparr>staticContainer := Some [], staticBlockCount := 0\<rparr>;
               fullHtml = render fullText;
               st2 = setStreamingHtml fullHtml st1
           in nextTick (FinalizeTask fullText) st2))"

text \<open>
  The \<^verbatim>\<open>for (const block of ...)\<close> loops that concatenate the HTML of the
  newly complete blocks, skipping empty results.
\<close>

fun accumulateHtml :: "(string \<Rightarrow> string) \<Rightarrow> string \<Rightarrow> string list \<Rightarrow> string" where
  "accumulateHtml render accumulatedHtml [] = accumulatedHtml"
| "accumulateHtml render accumulatedHtml (block # bs) =
     (let html = renderBlockHtml render block
      in accumulateHtml render (if html \<noteq> [] then accumulatedHtml @ html else accumulatedHtml) bs)"

definition processAppendedSuffix ::
  "(string \<Rightarrow> string) \<Rightarrow> string \<Rightarrow> 'n controller \<Rightarrow> 'n controller" where
  "processAppendedSuffix render suffix st =
     (if suffix = [] then
        (let bs = splitIntoBlocks (tailMarkdown st);
             streamingBlock = (if bs \<noteq> [] then last bs else [])
         in setStreamingHtml (renderBlockHtml render streamingBlock) st)
      else
        (let st1 = st\<lparr>tailMarkdown :=
                         (if tailMarkdown st \<noteq> [] then tailMarkdown st @ suffix else suffix)\<rparr>;
             bs = splitIntoBlocks (tailMarkdown st1);
             completeBlocks = (if length bs > 1 then butlast bs else []);
             streamingBlock = (if bs \<noteq> [] then last bs else []);
             st2 = (if length completeBlocks > lastCompleteBlockCount st1 then
                      (let newBlocks = drop (lastCompleteBlockCount st1) completeBlocks;
                           accumulatedHtml = accumulateHtml render [] newBlocks;
                           st' = (if accumulatedHtml \<noteq> []
                                  then nextTick FlushTask (setStreamingHtml accumulatedHtml st1)
                                  else st1)
                       in st'\<lparr>lastCompleteBlockCount := length completeBlocks\<rparr>)
                    else st1)
         in setStreamingHtml (renderBlockHtml render streamingBlock) st2))"

definition handleNonPrefixReplace ::
  "(string \<Rightarrow> string) \<Rightarrow> string \<Rightarrow> bool \<Rightarrow> 'n controller \<Rightarrow> 'n controller" where
  "handleNonPrefixReplace render newContent isComplete st =
     (if isComplete then finalizeAll render newContent st
      else
        (let st1 = st\<lparr>staticContainer :=
                         (case staticContainer st of None \<Rightarrow> None | Some _ \<Rightarrow> Some []),
                       staticBlockCount := 0, lastCompleteBlockCount := 0,
                       tailMarkdown := [], lastRenderKey := [], prevContent := []\<rparr>;
             bs = splitIntoBlocks newContent;
             completeBlocks = (if length bs > 1 then butlast bs else []);
             accumulatedHtml = accumulateHtml render [] completeBlocks;
             st2 = (if accumulatedHtml \<noteq> []
                    then nextTick FlushTask (setStreamingHtml accumulatedHtml st1)
                    else st1);
             st3 = st2\<lparr>lastCompleteBlockCount := length completeBlocks,
                        tailMarkdown := (if bs \<noteq> [] then last bs else [])\<rparr>;
             st4 = setStreamingHtml (renderBlockHtml render (tailMarkdown st3)) st3
         in st4\<lparr>prevContent := newContent\<rparr>))"

definition processContentNow ::
  "(string \<Rightarrow> string) \<Rightarrow> string \<Rightarrow> bool \<Rightarrow> 'n controller \<Rightarrow> 'n controller" where
  "processContentNow render newContent isComplete st =
     (if prevContent st = [] then
        (let st1 = (if \<not> hasEmittedStart st then (emit Start st)\<lparr>hasEmittedStart := True\<rparr> else st);
             st2 = handleNonPrefixReplace render newContent False st1
         in st2\<lparr>prevContent := newContent\<rparr>)
      else if isComplete then emit Complete (finalizeAll render newContent st)
      else if startsWith newContent (prevContent st) then
        (let suffix = drop (length (prevContent st)) newContent
         in (processAppendedSuffix render suffix st)\<lparr>prevContent := newContent\<rparr>)
      else
        (let minLength = min (length (prevContent st)) (length newContent)
         in if minLength = 0 \<or> \<not> startsWith newContent (take minLength (prevContent st))
            then handleNonPrefixReplace render newContent isComplete st
            else (processAppendedSuffix render [] st)\<lparr>prevContent := newContent\<rparr>))"

text \<open>The callback of \<^verbatim>\<open>watch\<close>, run for every change of the two props.\<close>

definition watchCallback ::
  "(string \<Rightarrow> string) \<Rightarrow> string \<times> bool \<Rightarrow> 'n controller \<Rightarrow> 'n controller" where
  "watchCallback render u st =
     (case u of (newContent, isComplete) \<Rightarrow>
        (let st1 = (if newContent = [] \<or> length newContent < length (prevContent st)
                    then st\<lparr>hasEmittedStart := False\<rparr> else st)
         in processContentNow render newContent isComplete st1))"

section \<open>The host: mounting, reactive rendering and deferred callbacks\<close>

text \<open>
  What the framework does around the callback. Mounting creates both containers, the
  streaming one with the current value of the \<^verbatim>\<open>v-html\<close> binding. A re-render
  assigns \<^verbatim>\<open>innerHTML\<close> of the streaming container only when the bound value
  differs from the value of the previous render (\<open>boundHtml\<close>). Callbacks given to
  \<^verbatim>\<open>nextTick\<close> run in the order they were scheduled, after the pending
  re-render; callbacks scheduled by callbacks run after the next re-render.
\<close>

definition mount :: "(string \<Rightarrow> 'n list) \<Rightarrow> 'n controller \<Rightarrow> 'n controller" where
  "mount parse st =
     (if staticContainer st = None \<and> streamingContainer st = None
      then st\<lparr>staticContainer := Some [],
              streamingContainer := Some (setInnerHTML parse (streamingHtml st)),
              boundHtml := streamingHtml st\<rparr>
      else st)"

definition vueRender :: "(string \<Rightarrow> 'n list) \<Rightarrow> 'n controller \<Rightarrow> 'n controller" where
  "vueRender parse st =
     (case streamingContainer st of
        None \<Rightarrow> st
      | Some _ \<Rightarrow>
          if streamingHtml st = boundHtml st then st
          else st\<lparr>streamingContainer := Some (setInnerHTML parse (streamingHtml st)),
                  boundHtml := streamingHtml st\<rparr>)"

text \<open>
  The bodies of the deferred callbacks: the flush scheduled while streaming, the
  callback of \<^verbatim>\<open>finalizeAll\<close>, and the highlighting pass it schedules in turn.
\<close>

definition runTask :: "task \<Rightarrow> 'n controller \<Rightarrow> 'n controller" where
  "runTask t st =
     (case t of
        FlushTask \<Rightarrow> flushToStatic st
      | FinalizeTask fullText \<Rightarrow>
          (let st1 = flushToStatic st;
               st2 = st1\<lparr>tailMarkdown := [], staticBlockCount := 0, lastCompleteBlockCount := 0,
                         lastRenderKey := [], prevContent := fullText, streamingHtml := []\<rparr>
           in nextTick HighlightTask st2)
      | HighlightTask \<Rightarrow> st)"

fun runTasks :: "task list \<Rightarrow> 'n controller \<Rightarrow> 'n controller" where
  "runTasks [] st = st"
| "runTasks (t # ts) st = runTasks ts (runTask t st)"

fun taskRank :: "task \<Rightarrow> nat" where
  "taskRank FlushTask = 1"
| "taskRank (FinalizeTask _) = 2"
| "taskRank HighlightTask = 1"

definition pendingRank :: "'n controller \<Rightarrow> nat" where
  "pendingRank st = sum_list (map taskRank (deferred st))"

lemma deferred_flushToStatic: "deferred (flushToStatic st) = deferred st"
  by (simp add: flushToStatic_def split: option.splits prod.splits)

lemma deferred_vueRender: "deferred (vueRender parse st) = deferred st"
  by (simp add: vueRender_def split: option.splits)

lemma pendingRank_runTask: "pendingRank (runTask t st) < pendingRank st + taskRank t"
  by (cases t) (simp_all add: runTask_def pendingRank_def nextTick_def deferred_flushToStatic)

lemma pendingRank_runTasks:
  "pendingRank (runTasks ts st) + (if ts = [] then 0 else 1)
     \<le> pendingRank st + sum_list (map taskRank ts)"
proof (induction ts arbitrary: st)
  case Nil
  show ?case by simp
next
  case (Cons t ts)
  have "pendingRank (runTasks ts (runTask t st))
          \<le> pendingRank (runTask t st) + sum_list (map taskRank ts)"
    using Cons.IH [of "runTask t st"] by (simp split: if_splits)
  with pendingRank_runTask [of t st] show ?case by simp
qed

text \<open>
  The queue of deferred callbacks is emptied batch by batch, with a re-render after
  each batch. It ends: a callback only schedules callbacks of lower rank.
\<close>

function drain :: "(string \<Rightarrow> 'n list) \<Rightarrow> 'n controller \<Rightarrow> 'n controller" where
  "drain parse st =
     (if deferred st = [] then st
      else drain parse (vueRender parse (runTasks (deferred st) (st\<lparr>deferred := []\<rparr>))))"
  by pat_completeness auto
termination
proof (relation "measure (\<lambda>(parse, st). pendingRank st)")
  show "wf (measure (\<lambda>(parse :: string \<Rightarrow> 'n list, st :: 'n controller). pendingRank st))"
    by simp
next
  fix parse :: "string \<Rightarrow> 'n list" and st :: "'n controller"
  assume ne: "deferred st \<noteq> []"
  have "pendingRank (runTasks (deferred st) (st\<lparr>deferred := []\<rparr>)) + 1 \<le> pendingRank st"
    using pendingRank_runTasks [of "deferred st" "st\<lparr>deferred := []\<rparr>"] ne
    by (simp add: pendingRank_def)
  then show "((parse, vueRender parse (runTasks (deferred st) (st\<lparr>deferred := []\<rparr>))), (parse, st))
        \<in> measure (\<lambda>(parse, st). pendingRank st)"
    by (simp add: pendingRank_def deferred_vueRender)
qed

declare drain.simps [simp del]

text \<open>
  One turn of the host after the callback has run: mount (the first time), re-render,
  run the deferred callbacks.
\<close>

definition hostTick :: "(string \<Rightarrow> 'n list) \<Rightarrow> 'n controller \<Rightarrow> 'n controller" where
  "hostTick parse st = drain parse (vueRender parse (mount parse st))"

definition onUpdate ::
  "(string \<Rightarrow> string) \<Rightarrow> (string \<Rightarrow> 'n list) \<Rightarrow> string \<times> bool \<Rightarrow> 'n controller
     \<Rightarrow> 'n controller" where
  "onUpdate render parse u st = hostTick parse (watchCallback render u st)"

fun runSession ::
  "(string \<Rightarrow> string) \<Rightarrow> (string \<Rightarrow> 'n list) \<Rightarrow> (string \<times> bool) list \<Rightarrow> 'n controller
     \<Rightarrow> 'n controller" where
  "runSession render parse [] st = st"
| "runSession render parse (u # us) st = runSession render parse us (onUpdate render parse u st)"

text \<open>
  The first statement of the callback of \<^verbatim>\<open>watch\<close> on its own: the start flag
  is cleared when the content is empty or shorter than the snapshot.
\<close>

definition resetStart :: "string \<Rightarrow> 'n controller \<Rightarrow> 'n controller" where
  "resetStart c st =
     (if c = [] \<or> length c < length (prevContent st) then st\<lparr>hasEmittedStart := False\<rparr> else st)"

text \<open>
  A pure append sequence: every content starts with the one before it, the first with
  the snapshot \<open>prev\<close>.
\<close>

fun appendChain :: "string \<Rightarrow> string list \<Rightarrow> bool" where
  "appendChain prev [] = True"
| "appendChain prev (c # cs) = (startsWith c prev \<and> appendChain c cs)"

text \<open>
  Two states agree on the variables that neither the DOM nor the queue of deferred
  callbacks holds.
\<close>

definition sameScript :: "'n controller \<Rightarrow> 'n controller \<Rightarrow> bool" where
  "sameScript st st' \<longleftrightarrow>
     tailMarkdown st' = tailMarkdown st \<and> prevContent st' = prevContent st
     \<and> lastRenderKey st' = lastRenderKey st
     \<and> lastCompleteBlockCount st' = lastCompleteBlockCount st
     \<and> hasEmittedStart st' = hasEmittedStart st \<and> streamingHtml st' = streamingHtml st"


text \<open>
  A stand-in for the two external functions, to run the controller on concrete
  updates: the engine wraps its input in a paragraph, the parser makes one node of a
  fragment.
\<close>

definition sampleRender :: "string \<Rightarrow> string" where
  "sampleRender s = ''<p>'' @ s @ ''</p>''"

definition sampleParse :: "string \<Rightarrow> string list" where
  "sampleParse html = [html]"

section \<open>Properties of the block splitter\<close>

lemma splitAcc_nonempty: "splitAcc acc s \<noteq> []"
  by (induction s arbitrary: acc) auto

lemma joinLines_Cons: "ls \<noteq> [] \<Longrightarrow> joinLines (l # ls) = l @ newline # joinLines ls"
  by (cases ls) simp_all

lemma joinLines_snoc: "ls \<noteq> [] \<Longrightarrow> joinLines (ls @ [l]) = joinLines ls @ newline # l"
proof (induction ls)
  case Nil
  then show ?case by simp
next
  case (Cons a ls)
  show ?case
  proof (cases "ls = []")
    case True
    then show ?thesis by simp
  next
    case False
    with Cons.IH show ?thesis by (simp add: joinLines_Cons)
  qed
qed

lemma joinLines_splitAcc: "joinLines (splitAcc acc s) = acc @ s"
proof (induction s arbitrary: acc)
  case Nil
  show ?case by simp
next
  case (Cons c cs)
  show ?case
  proof (cases "c = newline")
    case True
    have "joinLines (acc # splitAcc [] cs) = acc @ newline # joinLines (splitAcc [] cs)"
      by (rule joinLines_Cons) (rule splitAcc_nonempty)
    with True Cons.IH [of "[]"] show ?thesis by simp
  next
    case False
    with Cons.IH [of "acc @ [c]"] show ?thesis by simp
  qed
qed

lemma joinLines_splitLines: "joinLines (splitLines s) = s"
  by (simp add: splitLines_def joinLines_splitAcc)

lemma splitAcc_no_newline:
  "newline \<notin> set acc \<Longrightarrow> \<forall>l\<in>set (splitAcc acc s). newline \<notin> set l"
proof (induction s arbitrary: acc)
  case Nil
  then show ?case by simp
next
  case (Cons c cs)
  show ?case
  proof (cases "c = newline")
    case True
    with Cons.IH [of "[]"] Cons.prems show ?thesis by simp
  next
    case False
    with Cons.IH [of "acc @ [c]"] Cons.prems show ?thesis by simp
  qed
qed

lemma splitLines_no_newline: "l \<in> set (splitLines s) \<Longrightarrow> newline \<notin> set l"
  using splitAcc_no_newline [of "[]" s] by (simp add: splitLines_def)

lemma splitAcc_line: "newline \<notin> set l \<Longrightarrow> splitAcc acc (l @ s) = splitAcc (acc @ l) s"
  by (induction l arbitrary: acc) auto

lemma splitAcc_joinLines:
  "ls \<noteq> [] \<Longrightarrow> \<forall>l\<in>set ls. newline \<notin> set l \<Longrightarrow> splitAcc [] (joinLines ls) = ls"
proof (induction ls)
  case Nil
  then show ?case by simp
next
  case (Cons a ls)
  show ?case
  proof (cases "ls = []")
    case True
    with Cons.prems splitAcc_line [of a "[]" "[]"] show ?thesis by simp
  next
    case False
    with Cons have ih: "splitAcc [] (joinLines ls) = ls" by simp
    from False have "joinLines (a # ls) = a @ newline # joinLines ls" by (rule joinLines_Cons)
    with Cons.prems splitAcc_line [of a "[]" "newline # joinLines ls"] ih show ?thesis by simp
  qed
qed

lemma splitLines_joinLines:
  "ls \<noteq> [] \<Longrightarrow> \<forall>l\<in>set ls. newline \<notin> set l \<Longrightarrow> splitLines (joinLines ls) = ls"
  by (simp add: splitLines_def splitAcc_joinLines)

lemma splitIntoBlocks_nonempty: "splitIntoBlocks markdown \<noteq> []"
  by (simp add: splitIntoBlocks_def Let_def)

text \<open>
  C7. \<^verbatim>\<open>splitIntoBlocks\<close> never returns an empty sequence, and for the empty
  string it returns the one-element sequence holding the empty string. It is a function
  of its argument alone.
\<close>

theorem splitIntoBlocks_never_empty:
  "splitIntoBlocks markdown \<noteq> [] \<and> splitIntoBlocks [] = [[]]"
  by (simp add: splitIntoBlocks_def Let_def)

lemma fenceMatch_closer: "fenceMatch t0 = Some f \<Longrightarrow> startsWith t f \<Longrightarrow> fenceMatch t \<noteq> None"
  by (auto simp: fenceMatch_def split: if_splits)

lemma splitStep_open:
  "\<not> inCodeFence st \<Longrightarrow> fenceMatch (trim line) = Some f \<Longrightarrow>
   splitStep line rest st =
     \<lparr>blocks = splitFinish st, currentBlock = [line], inCodeFence = True, fenceChar = f\<rparr>"
  by (cases st) (simp add: splitStep_def splitFinish_def Let_def)

lemma splitStep_inside:
  "inCodeFence st \<Longrightarrow> \<not> startsWith (trim line) (fenceChar st) \<Longrightarrow>
   splitStep line rest st = st\<lparr>currentBlock := currentBlock st @ [line]\<rparr>"
  by (simp add: splitStep_def Let_def split: option.splits)

lemma splitStep_close:
  "inCodeFence st \<Longrightarrow> fenceMatch t0 = Some (fenceChar st) \<Longrightarrow> startsWith (trim line) (fenceChar st) \<Longrightarrow>
   splitStep line rest st =
     \<lparr>blocks = blocks st @ [joinLines (currentBlock st @ [line])], currentBlock = [],
      inCodeFence = False, fenceChar = []\<rparr>"
  using fenceMatch_closer [of t0 "fenceChar st" "trim line"]
  by (cases st) (auto simp add: splitStep_def Let_def split: option.splits)

lemma splitLoop_inside:
  "inCodeFence st \<Longrightarrow> \<forall>l\<in>set body. \<not> startsWith (trim l) (fenceChar st) \<Longrightarrow>
   splitLoop (body @ rest) st = splitLoop rest (st\<lparr>currentBlock := currentBlock st @ body\<rparr>)"
proof (induction body arbitrary: st)
  case Nil
  show ?case by simp
next
  case (Cons l body)
  from Cons.prems have step: "splitStep l (body @ rest) st = st\<lparr>currentBlock := currentBlock st @ [l]\<rparr>"
    by (simp add: splitStep_inside)
  from Cons.prems Cons.IH [of "st\<lparr>currentBlock := currentBlock st @ [l]\<rparr>"] step
  show ?case by simp
qed

lemma joinLines_nonempty: "l \<noteq> [] \<Longrightarrow> joinLines (l # ls) \<noteq> []"
  by (cases ls) simp_all

text \<open>
  C6. No block boundary falls inside an open fence. Whatever the loop has collected when
  it is outside a fence and reads a line whose trimmed text opens one (delimiter \<open>f\<close>),
  the lines that follow, blank ones included, all go into the block of the opening line
  as long as their trimmed text does not start with \<open>f\<close>; if the input ends there, that
  block is the last block of the result; a line whose trimmed text starts with \<open>f\<close>
  closes the block with that line in it.
\<close>

theorem fence_region_is_one_block:
  assumes outside: "\<not> inCodeFence st"
    and opens: "fenceMatch (trim opener) = Some f"
    and body: "\<forall>l\<in>set body. \<not> startsWith (trim l) f"
  shows "splitLoop (opener # body @ rest) st =
           splitLoop rest \<lparr>blocks = splitFinish st, currentBlock = opener # body,
                           inCodeFence = True, fenceChar = f\<rparr>
       \<and> splitFinish (splitLoop (opener # body) st) = splitFinish st @ [joinLines (opener # body)]
       \<and> (startsWith (trim closer) f \<longrightarrow>
            splitLoop (opener # body @ closer # rest) st =
              splitLoop rest \<lparr>blocks = splitFinish st @ [joinLines (opener # body @ [closer])],
                              currentBlock = [], inCodeFence = False, fenceChar = []\<rparr>)
       \<and> ((\<forall>l\<in>set (opener # body). newline \<notin> set l) \<longrightarrow>
            splitIntoBlocks (joinLines (opener # body)) = [joinLines (opener # body)])"
proof -
  let ?o = "\<lparr>blocks = splitFinish st, currentBlock = [opener], inCodeFence = True, fenceChar = f\<rparr>"
  have run: "splitLoop (opener # body @ r) st =
               splitLoop r \<lparr>blocks = splitFinish st, currentBlock = opener # body,
                            inCodeFence = True, fenceChar = f\<rparr>" for r
    using splitStep_open [OF outside opens, of "body @ r"] splitLoop_inside [of ?o body r] body
    by simp
  have fin: "splitFinish (splitLoop (opener # body) st) = splitFinish st @ [joinLines (opener # body)]"
    using run [of "[]"] by (simp add: splitFinish_def)
  have close: "splitLoop (opener # body @ closer # r) st =
              splitLoop r \<lparr>blocks = splitFinish st @ [joinLines (opener # body @ [closer])],
                              currentBlock = [], inCodeFence = False, fenceChar = []\<rparr>"
    if c: "startsWith (trim closer) f" for r
    using run [of "closer # r"] c opens
      splitStep_close [of "\<lparr>blocks = splitFinish st, currentBlock = opener # body,
                            inCodeFence = True, fenceChar = f\<rparr>" "trim opener" closer r]
    by simp
  have top: "splitIntoBlocks (joinLines (opener # body)) = [joinLines (opener # body)]"
    if nl: "\<forall>l\<in>set (opener # body). newline \<notin> set l"
  proof -
    from opens have "opener \<noteq> []"
      by (auto simp: fenceMatch_def startsWith_def trim_def split: if_splits)
    then have ne: "joinLines (opener # body) \<noteq> []" by (rule joinLines_nonempty)
    have sl: "splitLines (joinLines (opener # body)) = opener # body"
      using nl by (intro splitLines_joinLines) simp_all
    have "splitFinish (splitLoop (opener # body) splitInit) = [joinLines (opener # body)]"
      using splitStep_open [of splitInit opener f body] opens
        splitLoop_inside [of "\<lparr>blocks = splitFinish splitInit, currentBlock = [opener], inCodeFence = True, fenceChar = f\<rparr>" body "[]"] body
      by (simp add: splitInit_def splitFinish_def)
    with ne sl show ?thesis by (simp add: splitIntoBlocks_def)
  qed
  from run [of rest] fin close [of rest] top show ?thesis by blast
qed

theorem fence_region_is_one_block_witness:
  "\<not> inCodeFence splitInit \<and> fenceMatch (trim ''```js'') = Some ''```''
   \<and> \<not> startsWith (trim ''a'') ''```'' \<and> \<not> startsWith (trim []) ''```''
   \<and> \<not> startsWith (trim ''b'') ''```'' \<and> startsWith (trim '' ```'') ''```''
   \<and> splitFinish (splitLoop [''```js'', ''a'', [], ''b''] splitInit)
       = [joinLines [''```js'', ''a'', [], ''b'']]
   \<and> splitFinish (splitLoop [''```js'', ''a'', [], ''b'', '' ```'', ''x''] splitInit)
       = [joinLines [''```js'', ''a'', [], ''b'', '' ```''], ''x'']"
proof -
  have h1: "\<not> inCodeFence splitInit" by (simp add: splitInit_def)
  have h2: "fenceMatch (trim ''```js'') = Some ''```''"
    by (simp add: fenceMatch_def trim_def startsWith_def isWhitespace_def)
  have h3: "\<forall>l\<in>set [''a'', [], ''b'']. \<not> startsWith (trim l) ''```''"
    by (simp add: trim_def startsWith_def isWhitespace_def)
  have h4: "startsWith (trim '' ```'') ''```''"
    by (simp add: trim_def startsWith_def isWhitespace_def)
  have x: "splitLoop [''x''] \<lparr>blocks = splitFinish splitInit @ [joinLines (''```js'' # [''a'', [], ''b''] @ ['' ```''])],
                              currentBlock = [], inCodeFence = False, fenceChar = []\<rparr>
     = \<lparr>blocks = [joinLines [''```js'', ''a'', [], ''b'', '' ```'']],
                              currentBlock = [''x''], inCodeFence = False, fenceChar = []\<rparr>"
    by (simp add: splitStep_def trim_def fenceMatch_def startsWith_def isWhitespace_def splitFinish_def splitInit_def)
  from fence_region_is_one_block [OF h1 h2 h3, of "[''x'']" "'' ```''"] h1 h2 h3 h4 x
  show ?thesis by (simp add: splitFinish_def splitInit_def)
qed

lemma glue_snoc:
  "length seps = length bs \<Longrightarrow> glue (bs @ [b]) (seps @ [s]) = glue bs seps @ b @ s"
  by (induction bs seps rule: glue.induct) simp_all

lemma rejoin_snoc:
  "length seps = length bs \<Longrightarrow> rejoin (bs @ [b]) seps = glue bs seps @ b"
proof (induction bs seps rule: glue.induct)
  case (1 c cs s seps)
  then show ?case by (cases cs) simp_all
qed simp_all

lemma consumed_joinLines: "ls \<noteq> [] \<Longrightarrow> consumed ls = joinLines ls @ [newline]"
proof (induction ls)
  case Nil
  then show ?case by simp
next
  case (Cons a ls)
  then show ?case by (cases "ls = []") (simp_all add: consumed_def joinLines_Cons)
qed

lemma splitStep_forms:
  "(blocks (splitStep l rest st) = blocks st \<and> currentBlock (splitStep l rest st) = currentBlock st @ [l])
   \<or> (currentBlock st \<noteq> [] \<and> blocks (splitStep l rest st) = blocks st @ [joinLines (currentBlock st)]
        \<and> currentBlock (splitStep l rest st) = [l])
   \<or> (blocks (splitStep l rest st) = blocks st @ [joinLines (currentBlock st @ [l])]
        \<and> currentBlock (splitStep l rest st) = [])
   \<or> (currentBlock st \<noteq> [] \<and> trim l = []
        \<and> blocks (splitStep l rest st) = blocks st @ [joinLines (currentBlock st)]
        \<and> currentBlock (splitStep l rest st) = [])"
  by (simp add: splitStep_def Let_def split: option.splits)

lemma pendingText_push:
  "currentBlock st' = currentBlock st @ [l] \<Longrightarrow> pendingText st' = pendingText st @ l @ [newline]"
  by (simp add: pendingText_def joinLines_snoc)

lemma splitInv_step:
  assumes inv: "splitInv seen st" and nl: "newline \<notin> set l"
  shows "splitInv (seen @ [l]) (splitStep l rest st)"
proof -
  from inv obtain seps where len: "length seps = length (blocks st)"
    and sep: "\<forall>s\<in>set seps. isSeparator s"
    and eq: "consumed seen = glue (blocks st) seps @ pendingText st"
    by (auto simp: splitInv_def)
  let ?st = "splitStep l rest st"
  have cons: "consumed (seen @ [l]) = glue (blocks st) seps @ pendingText st @ l @ [newline]"
    using eq by (simp add: consumed_def)
  consider
    (push) "blocks ?st = blocks st" "currentBlock ?st = currentBlock st @ [l]"
  | (opened) "currentBlock st \<noteq> []" "blocks ?st = blocks st @ [joinLines (currentBlock st)]"
      "currentBlock ?st = [l]"
  | (closed) "blocks ?st = blocks st @ [joinLines (currentBlock st @ [l])]" "currentBlock ?st = []"
  | (boundary) "currentBlock st \<noteq> []" "trim l = []"
      "blocks ?st = blocks st @ [joinLines (currentBlock st)]" "currentBlock ?st = []"
    using splitStep_forms [of l rest st] by blast
  then show ?thesis
  proof cases
    case push
    have "consumed (seen @ [l]) = glue (blocks ?st) seps @ pendingText ?st"
      using cons push by (simp add: pendingText_push)
    with len sep push show ?thesis unfolding splitInv_def by auto
  next
    case opened
    have "consumed (seen @ [l]) = glue (blocks ?st) (seps @ [[newline]]) @ pendingText ?st"
      using cons opened len by (simp add: glue_snoc pendingText_def)
    moreover have "\<forall>s\<in>set (seps @ [[newline]]). isSeparator s"
      using sep by (simp add: isSeparator_def)
    moreover have "length (seps @ [[newline]]) = length (blocks ?st)"
      using len opened by simp
    ultimately show ?thesis unfolding splitInv_def by blast
  next
    case closed
    have "consumed (seen @ [l]) = glue (blocks ?st) (seps @ [[newline]]) @ pendingText ?st"
      using cons closed len by (simp add: glue_snoc pendingText_def joinLines_snoc)
    moreover have "\<forall>s\<in>set (seps @ [[newline]]). isSeparator s"
      using sep by (simp add: isSeparator_def)
    moreover have "length (seps @ [[newline]]) = length (blocks ?st)"
      using len closed by simp
    ultimately show ?thesis unfolding splitInv_def by blast
  next
    case boundary
    let ?s = "newline # l @ [newline]"
    have "consumed (seen @ [l]) = glue (blocks ?st) (seps @ [?s]) @ pendingText ?st"
      using cons boundary len by (simp add: glue_snoc pendingText_def)
    moreover have "isSeparator ?s"
      using boundary nl by (simp add: isSeparator_def blankLine_def)
    then have "\<forall>s\<in>set (seps @ [?s]). isSeparator s"
      using sep by simp
    moreover have "length (seps @ [?s]) = length (blocks ?st)"
      using len boundary by simp
    ultimately show ?thesis unfolding splitInv_def by blast
  qed
qed

lemma splitInv_loop:
  "splitInv seen st \<Longrightarrow> \<forall>l\<in>set ls. newline \<notin> set l \<Longrightarrow> splitInv (seen @ ls) (splitLoop ls st)"
proof (induction ls arbitrary: seen st)
  case Nil
  then show ?case by simp
next
  case (Cons l ls)
  from Cons.prems have "splitInv (seen @ [l]) (splitStep l ls st)"
    by (intro splitInv_step) simp_all
  from Cons.IH [OF this] Cons.prems show ?case by simp
qed

lemma splitInv_init: "splitInv [] splitInit"
  by (simp add: splitInv_def splitInit_def consumed_def pendingText_def)

lemma splitInv_finish:
  assumes inv: "splitInv ls st" and ne: "ls \<noteq> []"
  shows "splitFinish st \<noteq> [] \<and>
         (\<exists>seps trailing. length seps + 1 = length (splitFinish st) \<and> (\<forall>s\<in>set seps. isSeparator s)
            \<and> isTrailing trailing \<and> joinLines ls = rejoin (splitFinish st) seps @ trailing)"
proof -
  from inv obtain seps where len: "length seps = length (blocks st)"
    and sep: "\<forall>s\<in>set seps. isSeparator s"
    and eq: "consumed ls = glue (blocks st) seps @ pendingText st"
    by (auto simp: splitInv_def)
  from ne eq have eq': "joinLines ls @ [newline] = glue (blocks st) seps @ pendingText st"
    by (simp add: consumed_joinLines)
  show ?thesis
  proof (cases "currentBlock st = []")
    case False
    with eq' have "joinLines ls = rejoin (splitFinish st) seps @ []"
      using len by (simp add: pendingText_def splitFinish_def rejoin_snoc)
    moreover have "length seps + 1 = length (splitFinish st)"
      using len False by (simp add: splitFinish_def)
    moreover have "isTrailing []" by (simp add: isTrailing_def)
    moreover have "splitFinish st \<noteq> []" using False by (simp add: splitFinish_def)
    ultimately show ?thesis using sep by blast
  next
    case True
    with eq' have g: "joinLines ls @ [newline] = glue (blocks st) seps"
      by (simp add: pendingText_def)
    then have bne: "blocks st \<noteq> []" by (cases "blocks st") auto
    then obtain bs b where bs: "blocks st = bs @ [b]" by (metis rev_exhaust)
    with len obtain ss s where ss: "seps = ss @ [s]" "length ss = length bs"
      by (cases seps rule: rev_cases) auto
    from g bs ss have g': "joinLines ls @ [newline] = glue bs ss @ b @ s"
      by (simp add: glue_snoc)
    from sep ss have "isSeparator s" by simp
    then consider (single) "s = [newline]"
      | (blank) "2 \<le> length s" "hd s = newline" "last s = newline" "blankLine (butlast (tl s))"
      by (auto simp: isSeparator_def)
    then obtain t where t: "isTrailing t" "joinLines ls = glue bs ss @ b @ t"
    proof cases
      case single
      with g' have "joinLines ls = glue bs ss @ b @ []" by simp
      moreover have "isTrailing []" by (simp add: isTrailing_def)
      ultimately show ?thesis using that by blast
    next
      case blank
      then have "s \<noteq> []" by auto
      then have s: "s = butlast s @ [newline]" using blank by (metis append_butlast_last_id)
      with g' have "joinLines ls @ [newline] = (glue bs ss @ b @ butlast s) @ [newline]" by simp
      then have j: "joinLines ls = glue bs ss @ b @ butlast s" by simp
      from blank have "butlast s \<noteq> []" by (cases s rule: rev_cases) auto
      then have "hd (butlast s) = newline" using blank s by (metis hd_append2)
      moreover have "tl (butlast s) = butlast (tl s)" by (simp add: butlast_tl)
      ultimately have "isTrailing (butlast s)" using blank by (simp add: isTrailing_def)
      with j show ?thesis using that by blast
    qed
    have "joinLines ls = rejoin (splitFinish st) ss @ t"
      using t bs ss True by (simp add: splitFinish_def rejoin_snoc)
    moreover have "length ss + 1 = length (splitFinish st)"
      using bs ss True by (simp add: splitFinish_def)
    moreover have "\<forall>s\<in>set ss. isSeparator s" using sep ss by simp
    moreover have "splitFinish st \<noteq> []" using True bne by (simp add: splitFinish_def)
    ultimately show ?thesis using t by blast
  qed
qed

lemma rejoin_contains:
  "b \<in> set bs \<Longrightarrow> \<exists>p q. rejoin bs seps = p @ b @ q"
proof (induction bs seps rule: rejoin.induct)
  case (1 seps)
  then show ?case by simp
next
  case (2 b' seps)
  then have "rejoin [b'] seps = [] @ b @ []" by simp
  then show ?case by blast
next
  case (3 b' c bs)
  show ?case
  proof (cases "b = b'")
    case True
    then have "rejoin (b' # c # bs) [] = [] @ b @ rejoin (c # bs) []" by simp
    then show ?thesis by blast
  next
    case False
    with 3 obtain p q where "rejoin (c # bs) [] = p @ b @ q" by auto
    then have "rejoin (b' # c # bs) [] = (b' @ p) @ b @ q" by simp
    then show ?thesis by blast
  qed
next
  case (4 b' c bs s seps)
  show ?case
  proof (cases "b = b'")
    case True
    then have "rejoin (b' # c # bs) (s # seps) = [] @ b @ (s @ rejoin (c # bs) seps)" by simp
    then show ?thesis by blast
  next
    case False
    with 4 obtain p q where "rejoin (c # bs) seps = p @ b @ q" by auto
    then have "rejoin (b' # c # bs) (s # seps) = (b' @ s @ p) @ b @ q" by simp
    then show ?thesis by blast
  qed
qed

text \<open>
  C9. The input is the blocks of \<^verbatim>\<open>splitIntoBlocks\<close>, in order, with a separator
  between consecutive blocks that is a line feed or a blank line between two line feeds,
  followed at most by a line feed and a blank line that the result drops. So every block
  is a contiguous piece of the input, and the blocks neither overlap nor change order.
\<close>

theorem splitIntoBlocks_reconstructs:
  "\<exists>seps trailing.
     length seps + 1 = length (splitIntoBlocks markdown)
     \<and> (\<forall>s\<in>set seps. isSeparator s)
     \<and> isTrailing trailing
     \<and> markdown = rejoin (splitIntoBlocks markdown) seps @ trailing
     \<and> (\<forall>b\<in>set (splitIntoBlocks markdown). \<exists>p q. markdown = p @ b @ q)"
proof (cases "markdown = []")
  case True
  have "length ([] :: string list) + 1 = length (splitIntoBlocks markdown)"
    using True by (simp add: splitIntoBlocks_def)
  moreover have "markdown = rejoin (splitIntoBlocks markdown) [] @ []"
    using True by (simp add: splitIntoBlocks_def)
  moreover have "\<forall>b\<in>set (splitIntoBlocks markdown). \<exists>p q. markdown = p @ b @ q"
    using True by (simp add: splitIntoBlocks_def)
  moreover have "isTrailing []" by (simp add: isTrailing_def)
  ultimately show ?thesis by (metis empty_iff list.set(1))
next
  case False
  let ?ls = "splitLines markdown"
  let ?st = "splitLoop ?ls splitInit"
  have "\<forall>l\<in>set ?ls. newline \<notin> set l" by (simp add: splitLines_no_newline)
  with splitInv_loop [OF splitInv_init, of ?ls] have inv: "splitInv ?ls ?st" by simp
  have ne: "?ls \<noteq> []" by (simp add: splitLines_def splitAcc_nonempty)
  from splitInv_finish [OF inv ne] obtain seps trailing where
    nonempty: "splitFinish ?st \<noteq> []" and
    len: "length seps + 1 = length (splitFinish ?st)" and
    sep: "\<forall>s\<in>set seps. isSeparator s" and tr: "isTrailing trailing" and
    eq: "joinLines ?ls = rejoin (splitFinish ?st) seps @ trailing"
    by blast
  have sb: "splitIntoBlocks markdown = splitFinish ?st"
    using False nonempty by (simp add: splitIntoBlocks_def)
  have m: "markdown = rejoin (splitIntoBlocks markdown) seps @ trailing"
    using eq sb by (simp add: joinLines_splitLines)
  have "\<exists>p q. markdown = p @ b @ q" if "b \<in> set (splitIntoBlocks markdown)" for b
  proof -
    from rejoin_contains [OF that, of seps] obtain p q where
      "rejoin (splitIntoBlocks markdown) seps = p @ b @ q" by blast
    with m have "markdown = p @ b @ (q @ trailing)" by simp
    then show ?thesis by blast
  qed
  with len sep tr m sb show ?thesis by auto
qed

theorem splitIntoBlocks_reconstructs_witness:
  "splitIntoBlocks (''a'' @ [newline, newline] @ ''# b'' @ [newline]) = [''a'', ''# b'']
   \<and> (\<exists>seps trailing.
        length seps + 1 = length [''a'', ''# b'']
        \<and> (\<forall>s\<in>set seps. isSeparator s)
        \<and> isTrailing trailing
        \<and> ''a'' @ [newline, newline] @ ''# b'' @ [newline] = rejoin [''a'', ''# b''] seps @ trailing
        \<and> (\<forall>b\<in>set [''a'', ''# b'']. \<exists>p q. ''a'' @ [newline, newline] @ ''# b'' @ [newline] = p @ b @ q))"
proof -
  have ev: "splitIntoBlocks (''a'' @ [newline, newline] @ ''# b'' @ [newline]) = [''a'', ''# b'']"
    by code_simp
  from splitIntoBlocks_reconstructs [of "''a'' @ [newline, newline] @ ''# b'' @ [newline]"]
  show ?thesis unfolding ev by simp
qed

section \<open>Properties of the flush\<close>

lemma moveChildren_eq: "moveChildren strm stat cnt = ([], stat @ strm, cnt + length strm)"
  by (induction strm arbitrary: stat cnt) simp_all

lemma flushToStatic_mounted:
  "staticContainer st = Some stat \<Longrightarrow> streamingContainer st = Some strm \<Longrightarrow>
   flushToStatic st = st\<lparr>staticContainer := Some (stat @ strm), streamingContainer := Some [],
                          staticBlockCount := staticBlockCount st + length strm\<rparr>"
  by (simp add: flushToStatic_def moveChildren_eq)

lemma flushToStatic_unmounted:
  "staticContainer st = None \<or> streamingContainer st = None \<Longrightarrow> flushToStatic st = st"
  by (auto simp: flushToStatic_def split: option.splits)

text \<open>
  C8. Flushing when the streaming container has no child, or when either container is
  missing, changes nothing: neither the static container nor \<^verbatim>\<open>staticBlockCount\<close>.
  Any other flush puts the children of the streaming container, in their order, after
  the children the static container already has, empties the streaming container and
  adds their number to the count. A second flush right after a flush changes nothing.
\<close>

theorem flushToStatic_appends:
  "(staticContainer st = None \<or> streamingContainer st = None \<or> streamingContainer st = Some []
      \<longrightarrow> flushToStatic st = st)
   \<and> (staticContainer st = Some stat \<and> streamingContainer st = Some strm
      \<longrightarrow> flushToStatic st =
            st\<lparr>staticContainer := Some (stat @ strm), streamingContainer := Some [],
               staticBlockCount := staticBlockCount st + length strm\<rparr>)
   \<and> flushToStatic (flushToStatic st) = flushToStatic st"
proof (intro conjI impI)
  assume "staticContainer st = None \<or> streamingContainer st = None \<or> streamingContainer st = Some []"
  then show "flushToStatic st = st"
    by (cases "staticContainer st") (auto simp: flushToStatic_unmounted flushToStatic_mounted)
next
  assume "staticContainer st = Some stat \<and> streamingContainer st = Some strm"
  then show "flushToStatic st =
            st\<lparr>staticContainer := Some (stat @ strm), streamingContainer := Some [],
               staticBlockCount := staticBlockCount st + length strm\<rparr>"
    by (simp add: flushToStatic_mounted)
next
  show "flushToStatic (flushToStatic st) = flushToStatic st"
  proof (cases "staticContainer st")
    case None
    then show ?thesis by (simp add: flushToStatic_unmounted)
  next
    case (Some a)
    note s = this
    show ?thesis
    proof (cases "streamingContainer st")
      case None
      then show ?thesis by (simp add: flushToStatic_unmounted)
    next
      case (Some b)
      with s show ?thesis by (simp add: flushToStatic_mounted)
    qed
  qed
qed

theorem flushToStatic_appends_witness:
  "flushToStatic (initialState :: string controller) = initialState
   \<and> staticContainer (flushToStatic
        ((initialState :: string controller)
           \<lparr>staticContainer := Some [''<h1>a</h1>''],
            streamingContainer := Some [''<p>b</p>'', ''<p>c</p>'']\<rparr>))
       = Some [''<h1>a</h1>'', ''<p>b</p>'', ''<p>c</p>'']
   \<and> staticBlockCount (flushToStatic
        ((initialState :: string controller)
           \<lparr>staticContainer := Some [''<h1>a</h1>''],
            streamingContainer := Some [''<p>b</p>'', ''<p>c</p>'']\<rparr>)) = 2"
  using flushToStatic_appends [of "initialState :: string controller" "[]" "[]"]
    flushToStatic_appends [of "(initialState :: string controller)
           \<lparr>staticContainer := Some [''<h1>a</h1>''],
            streamingContainer := Some [''<p>b</p>'', ''<p>c</p>'']\<rparr>" "[''<h1>a</h1>'']" "[''<p>b</p>'', ''<p>c</p>'']"]
  by (simp add: initialState_def)

section \<open>Blank blocks\<close>

lemma trim_blank:
  assumes "\<forall>c\<in>set b. isWhitespace c"
  shows "trim b = []"
proof -
  have d: "dropWhile isWhitespace b = []" using assms by simp
  show ?thesis unfolding trim_def d by simp
qed

lemma accumulateHtml_append:
  "accumulateHtml render acc (xs @ ys) = accumulateHtml render (accumulateHtml render acc xs) ys"
  by (induction xs arbitrary: acc) (simp_all add: Let_def)

text \<open>
  C10. For a block that is empty or holds white space only, \<^verbatim>\<open>renderBlockHtml\<close>
  returns the empty string whatever the external engine is (it is not consulted), and
  the loop that concatenates the HTML of the blocks to commit gives the same result with
  and without such a block.
\<close>

theorem blank_block_renders_nothing:
  assumes "\<forall>c\<in>set block. isWhitespace c"
  shows "renderBlockHtml render block = []
       \<and> accumulateHtml render acc (xs @ block # ys) = accumulateHtml render acc (xs @ ys)"
proof -
  from assms have "trim block = []" by (rule trim_blank)
  then have r: "renderBlockHtml render block = []" by (simp add: renderBlockHtml_def)
  then show ?thesis by (simp add: accumulateHtml_append)
qed

theorem blank_block_renders_nothing_witness:
  "isWhitespace CHR '' '' \<and> isWhitespace newline
   \<and> renderBlockHtml sampleRender [CHR '' '', newline] = []
   \<and> accumulateHtml sampleRender [] [''a'', [CHR '' '', newline], ''b''] = ''<p>a</p><p>b</p>''"
proof -
  have "\<forall>c\<in>set [CHR '' '', newline]. isWhitespace c" by (simp add: isWhitespace_def newline_def)
  from blank_block_renders_nothing [OF this, of sampleRender "[]" "[''a'']" "[''b'']"]
  show ?thesis
    by (simp add: isWhitespace_def newline_def renderBlockHtml_def sampleRender_def trim_def)
qed

section \<open>Properties of the host turn and of the handlers\<close>

lemma drain_nil: "deferred st = [] \<Longrightarrow> drain parse st = st"
  by (simp add: drain.simps)

lemma drain_step:
  "deferred st \<noteq> [] \<Longrightarrow>
   drain parse st = drain parse (vueRender parse (runTasks (deferred st) (st\<lparr>deferred := []\<rparr>)))"
  by (subst drain.simps) simp

lemma deferred_drain: "deferred (drain parse st) = []"
proof (induction parse st rule: drain.induct)
  case (1 parse st)
  show ?case
  proof (cases "deferred st = []")
    case True
    then show ?thesis by (simp add: drain_nil)
  next
    case False
    with 1 show ?thesis by (simp add: drain_step)
  qed
qed

lemma deferred_onUpdate: "deferred (onUpdate render parse u st) = []"
  by (simp add: onUpdate_def hostTick_def deferred_drain)

lemma emitted_flushToStatic: "emitted (flushToStatic st) = emitted st"
  by (simp add: flushToStatic_def split: option.splits prod.splits)

lemma emitted_setStreamingHtml: "emitted (setStreamingHtml h st) = emitted st"
  by (simp add: setStreamingHtml_def)

lemma emitted_finalizeAll: "emitted (finalizeAll render t st) = emitted st"
  by (simp add: finalizeAll_def nextTick_def emitted_setStreamingHtml Let_def split: option.splits)

lemma emitted_processAppendedSuffix: "emitted (processAppendedSuffix render sfx st) = emitted st"
  by (simp add: processAppendedSuffix_def nextTick_def emitted_setStreamingHtml Let_def)

lemma emitted_handleNonPrefixReplace: "emitted (handleNonPrefixReplace render c fin st) = emitted st"
  by (simp add: handleNonPrefixReplace_def nextTick_def emitted_setStreamingHtml
      emitted_finalizeAll Let_def)

lemma emitted_watchCallback:
  "emitted (watchCallback render (c, fin) st) =
     emitted st @ (if prevContent st = [] then (if \<not> hasEmittedStart st \<or> c = [] then [Start] else [])
                   else if fin then [Complete] else [])"
  by (auto simp add: watchCallback_def processContentNow_def emit_def Let_def
      emitted_handleNonPrefixReplace emitted_processAppendedSuffix emitted_finalizeAll)

lemma emitted_runTask: "emitted (runTask t st) = emitted st"
  by (cases t) (simp_all add: runTask_def nextTick_def emitted_flushToStatic Let_def)

lemma emitted_runTasks: "emitted (runTasks ts st) = emitted st"
  by (induction ts arbitrary: st) (simp_all add: emitted_runTask)

lemma emitted_vueRender: "emitted (vueRender parse st) = emitted st"
  by (simp add: vueRender_def split: option.splits)

lemma emitted_mount: "emitted (mount parse st) = emitted st"
  by (simp add: mount_def)

lemma emitted_drain: "emitted (drain parse st) = emitted st"
proof (induction parse st rule: drain.induct)
  case (1 parse st)
  show ?case
  proof (cases "deferred st = []")
    case True
    then show ?thesis by (simp add: drain_nil)
  next
    case False
    with 1 show ?thesis by (simp add: drain_step emitted_vueRender emitted_runTasks)
  qed
qed

lemma emitted_onUpdate:
  "emitted (onUpdate render parse (c, fin) st) =
     emitted st @ (if prevContent st = [] then (if \<not> hasEmittedStart st \<or> c = [] then [Start] else [])
                   else if fin then [Complete] else [])"
  by (simp add: onUpdate_def hostTick_def emitted_drain emitted_vueRender emitted_mount
      emitted_watchCallback)




lemma script_flushToStatic:
  "tailMarkdown (flushToStatic st) = tailMarkdown st"
  "prevContent (flushToStatic st) = prevContent st"
  "lastRenderKey (flushToStatic st) = lastRenderKey st"
  "lastCompleteBlockCount (flushToStatic st) = lastCompleteBlockCount st"
  "hasEmittedStart (flushToStatic st) = hasEmittedStart st"
  "streamingHtml (flushToStatic st) = streamingHtml st"
  "boundHtml (flushToStatic st) = boundHtml st"
  by (simp_all add: flushToStatic_def split: option.splits prod.splits)

lemma script_vueRender:
  "tailMarkdown (vueRender parse st) = tailMarkdown st"
  "prevContent (vueRender parse st) = prevContent st"
  "lastRenderKey (vueRender parse st) = lastRenderKey st"
  "lastCompleteBlockCount (vueRender parse st) = lastCompleteBlockCount st"
  "hasEmittedStart (vueRender parse st) = hasEmittedStart st"
  "streamingHtml (vueRender parse st) = streamingHtml st"
  by (simp_all add: vueRender_def split: option.splits)

lemma script_mount:
  "tailMarkdown (mount parse st) = tailMarkdown st"
  "prevContent (mount parse st) = prevContent st"
  "lastRenderKey (mount parse st) = lastRenderKey st"
  "lastCompleteBlockCount (mount parse st) = lastCompleteBlockCount st"
  "hasEmittedStart (mount parse st) = hasEmittedStart st"
  "streamingHtml (mount parse st) = streamingHtml st"
  "deferred (mount parse st) = deferred st"
  by (simp_all add: mount_def)

lemma script_setStreamingHtml:
  "tailMarkdown (setStreamingHtml h st) = tailMarkdown st"
  "prevContent (setStreamingHtml h st) = prevContent st"
  "lastCompleteBlockCount (setStreamingHtml h st) = lastCompleteBlockCount st"
  "hasEmittedStart (setStreamingHtml h st) = hasEmittedStart st"
  "deferred (setStreamingHtml h st) = deferred st"
  "staticContainer (setStreamingHtml h st) = staticContainer st"
  "streamingContainer (setStreamingHtml h st) = streamingContainer st"
  "staticBlockCount (setStreamingHtml h st) = staticBlockCount st"
  "boundHtml (setStreamingHtml h st) = boundHtml st"
  "lastRenderKey (setStreamingHtml h st) = h"
  by (simp_all add: setStreamingHtml_def)

lemma hostTick_streaming:
  assumes "deferred w = [] \<or> deferred w = [FlushTask]"
  shows "sameScript w (hostTick parse w)"
proof -
  define v where "v = vueRender parse (mount parse w)"
  have sv: "sameScript w v" and dv: "deferred v = deferred w"
    by (simp_all add: v_def sameScript_def script_vueRender script_mount deferred_vueRender)
  show ?thesis
  proof (cases "deferred w = []")
    case True
    with dv have "deferred v = []" by simp
    then have "drain parse v = v" by (rule drain_nil)
    then have "hostTick parse w = v" unfolding hostTick_def v_def .
    with sv show ?thesis by simp
  next
    case False
    with assms dv have q: "deferred v = [FlushTask]" by simp
    then have qne: "deferred v \<noteq> []" by simp
    define r where "r = vueRender parse (runTasks (deferred v) (v\<lparr>deferred := []\<rparr>))"
    have dr: "deferred r = []"
      by (simp add: r_def q deferred_vueRender runTask_def deferred_flushToStatic)
    have sr: "sameScript v r"
      by (simp add: r_def q sameScript_def script_vueRender runTask_def script_flushToStatic)
    from qne have "drain parse v = drain parse r" unfolding r_def by (rule drain_step)
    also have "\<dots> = r" using dr by (rule drain_nil)
    finally have "hostTick parse w = r" unfolding hostTick_def v_def .
    with sv sr show ?thesis by (simp add: sameScript_def)
  qed
qed

lemma hostTick_finalize_script:
  assumes q: "deferred w = [FinalizeTask c]"
  shows "tailMarkdown (hostTick parse w) = [] \<and> prevContent (hostTick parse w) = c
       \<and> lastRenderKey (hostTick parse w) = [] \<and> lastCompleteBlockCount (hostTick parse w) = 0
       \<and> streamingHtml (hostTick parse w) = []
       \<and> hasEmittedStart (hostTick parse w) = hasEmittedStart w"
proof -
  define v where "v = vueRender parse (mount parse w)"
  have dv: "deferred v = [FinalizeTask c]"
    by (simp add: v_def deferred_vueRender script_mount q)
  have hv: "hasEmittedStart v = hasEmittedStart w"
    by (simp add: v_def script_vueRender script_mount)
  define r where "r = vueRender parse (runTasks (deferred v) (v\<lparr>deferred := []\<rparr>))"
  have dr: "deferred r = [HighlightTask]"
    by (simp add: r_def dv deferred_vueRender runTask_def nextTick_def deferred_flushToStatic Let_def)
  have fr: "tailMarkdown r = [] \<and> prevContent r = c \<and> lastRenderKey r = []
       \<and> lastCompleteBlockCount r = 0 \<and> streamingHtml r = [] \<and> hasEmittedStart r = hasEmittedStart w"
    by (simp add: r_def dv script_vueRender runTask_def nextTick_def Let_def script_flushToStatic hv)
  define r2 where "r2 = vueRender parse (runTasks (deferred r) (r\<lparr>deferred := []\<rparr>))"
  have dr2: "deferred r2 = []"
    by (simp add: r2_def dr deferred_vueRender runTask_def)
  have fr2: "tailMarkdown r2 = [] \<and> prevContent r2 = c \<and> lastRenderKey r2 = []
       \<and> lastCompleteBlockCount r2 = 0 \<and> streamingHtml r2 = [] \<and> hasEmittedStart r2 = hasEmittedStart w"
    using fr by (simp add: r2_def dr script_vueRender runTask_def)
  from dv have "deferred v \<noteq> []" by simp
  then have "drain parse v = drain parse r" unfolding r_def by (rule drain_step)
  also from dr have "deferred r \<noteq> []" by simp
  then have "drain parse r = drain parse r2" unfolding r2_def by (rule drain_step)
  also have "\<dots> = r2" using dr2 by (rule drain_nil)
  finally have "hostTick parse w = r2" unfolding hostTick_def v_def .
  with fr2 show ?thesis by simp
qed

lemma processAppendedSuffix_count:
  "lastCompleteBlockCount st \<le> lastCompleteBlockCount (processAppendedSuffix render sfx st)"
  by (simp add: processAppendedSuffix_def Let_def script_setStreamingHtml nextTick_def)

lemma processAppendedSuffix_deferred:
  "deferred (processAppendedSuffix render sfx st) = deferred st
   \<or> deferred (processAppendedSuffix render sfx st) = deferred st @ [FlushTask]"
  by (simp add: processAppendedSuffix_def Let_def script_setStreamingHtml nextTick_def)

lemma butlast_guard: "(if 1 < length bs then butlast bs else []) = butlast bs"
  by (cases bs rule: rev_cases) auto

lemma handleNonPrefixReplace_False:
  "handleNonPrefixReplace render c False st =
     (let st1 = st\<lparr>staticContainer :=
                         (case staticContainer st of None \<Rightarrow> None | Some _ \<Rightarrow> Some []),
                       staticBlockCount := 0, lastCompleteBlockCount := 0,
                       tailMarkdown := [], lastRenderKey := [], prevContent := []\<rparr>;
          accumulatedHtml = accumulateHtml render [] (butlast (splitIntoBlocks c));
          st2 = (if accumulatedHtml \<noteq> []
                 then nextTick FlushTask (setStreamingHtml accumulatedHtml st1)
                 else st1);
          st3 = st2\<lparr>lastCompleteBlockCount := length (splitIntoBlocks c) - 1,
                     tailMarkdown := last (splitIntoBlocks c)\<rparr>;
          st4 = setStreamingHtml (renderBlockHtml render (last (splitIntoBlocks c))) st3
      in st4\<lparr>prevContent := c\<rparr>)"
  unfolding handleNonPrefixReplace_def Let_def butlast_guard
  using splitIntoBlocks_nonempty [of c] by simp

lemma handleNonPrefixReplace_streaming:
  "tailMarkdown (handleNonPrefixReplace render c False st) = last (splitIntoBlocks c)"
  "lastCompleteBlockCount (handleNonPrefixReplace render c False st) = length (splitIntoBlocks c) - 1"
  "prevContent (handleNonPrefixReplace render c False st) = c"
  "staticBlockCount (handleNonPrefixReplace render c False st) = 0"
  "staticContainer (handleNonPrefixReplace render c False st)
     = (case staticContainer st of None \<Rightarrow> None | Some _ \<Rightarrow> Some [])"
  "lastRenderKey (handleNonPrefixReplace render c False st)
     = renderBlockHtml render (last (splitIntoBlocks c))"
  "deferred (handleNonPrefixReplace render c False st)
     = deferred st @ (if accumulateHtml render [] (butlast (splitIntoBlocks c)) \<noteq> []
                      then [FlushTask] else [])"
  "hasEmittedStart (handleNonPrefixReplace render c False st) = hasEmittedStart st"
  by (simp_all add: handleNonPrefixReplace_False Let_def script_setStreamingHtml nextTick_def)

lemma watchCallback_fresh:
  "prevContent st = [] \<Longrightarrow>
   watchCallback render (c, fin) st =
     (handleNonPrefixReplace render c False
        (if \<not> hasEmittedStart st \<or> c = []
         then st\<lparr>hasEmittedStart := True, emitted := emitted st @ [Start]\<rparr>
         else st))\<lparr>prevContent := c\<rparr>"
  by (cases st) (auto simp: watchCallback_def processContentNow_def emit_def Let_def)

lemma resetStart_fields:
  "prevContent (resetStart c st) = prevContent st"
  "deferred (resetStart c st) = deferred st"
  "lastCompleteBlockCount (resetStart c st) = lastCompleteBlockCount st"
  "staticContainer (resetStart c st) = staticContainer st"
  "tailMarkdown (resetStart c st) = tailMarkdown st"
  by (simp_all add: resetStart_def)

lemma watchCallback_append:
  "prevContent st \<noteq> [] \<Longrightarrow> startsWith c (prevContent st) \<Longrightarrow>
   watchCallback render (c, False) st =
     (processAppendedSuffix render (drop (length (prevContent st)) c) (resetStart c st))
       \<lparr>prevContent := c\<rparr>"
  by (simp add: watchCallback_def processContentNow_def resetStart_def Let_def)

lemma rewind_condition:
  assumes "prev \<noteq> []" and "\<not> startsWith c prev"
  shows "(min (length prev) (length c) = 0 \<or> \<not> startsWith c (take (min (length prev) (length c)) prev))
         \<longleftrightarrow> (c = [] \<or> \<not> startsWith prev c)"
proof (cases "length c \<le> length prev")
  case True
  then have m: "min (length prev) (length c) = length c" by simp
  have "startsWith c (take (length c) prev) \<longleftrightarrow> startsWith prev c"
    using True by (auto simp: startsWith_def)
  with assms m show ?thesis by auto
next
  case False
  then have m: "min (length prev) (length c) = length prev" by simp
  have "\<not> startsWith prev c" using False by (auto simp: startsWith_def)
  moreover have "c \<noteq> []" using False by auto
  ultimately show ?thesis using assms m by (auto simp: startsWith_def)
qed

lemma watchCallback_resetStart:
  "watchCallback render (c, fin) st = processContentNow render c fin (resetStart c st)"
  by (simp add: watchCallback_def resetStart_def Let_def)

lemma processContentNow_diverge:
  assumes "prevContent st \<noteq> []" and "\<not> startsWith c (prevContent st)"
  shows "processContentNow render c False st =
           (if c = [] \<or> \<not> startsWith (prevContent st) c
            then handleNonPrefixReplace render c False st
            else (processAppendedSuffix render [] st)\<lparr>prevContent := c\<rparr>)"
proof -
  have rc: "(min (length (prevContent st)) (length c) = 0
             \<or> \<not> startsWith c (take (min (length (prevContent st)) (length c)) (prevContent st)))
            = (c = [] \<or> \<not> startsWith (prevContent st) c)"
    using assms by (rule rewind_condition)
  show ?thesis unfolding processContentNow_def Let_def rc using assms by simp
qed

lemma watchCallback_rewind:
  assumes "prevContent st \<noteq> []" and "\<not> startsWith c (prevContent st)"
    and "c = [] \<or> \<not> startsWith (prevContent st) c"
  shows "watchCallback render (c, False) st = handleNonPrefixReplace render c False (resetStart c st)"
  using assms processContentNow_diverge [of "resetStart c st" c render]
  by (auto simp add: watchCallback_resetStart resetStart_fields)

lemma watchCallback_truncate:
  assumes "prevContent st \<noteq> []" and "\<not> startsWith c (prevContent st)"
    and "c \<noteq> []" and "startsWith (prevContent st) c"
  shows "watchCallback render (c, False) st =
           (processAppendedSuffix render [] (resetStart c st))\<lparr>prevContent := c\<rparr>"
  using assms processContentNow_diverge [of "resetStart c st" c render]
  by (simp add: watchCallback_resetStart resetStart_fields)

lemma watchCallback_streaming_deferred:
  assumes "deferred st = []" and "\<not> (fin \<and> prevContent st \<noteq> [])"
  shows "deferred (watchCallback render (c, fin) st) = []
       \<or> deferred (watchCallback render (c, fin) st) = [FlushTask]"
proof (cases "prevContent st = []")
  case True
  then show ?thesis using assms
    by (simp add: watchCallback_fresh handleNonPrefixReplace_streaming)
next
  case False
  with assms have fin: "fin = False" by simp
  show ?thesis
  proof (cases "startsWith c (prevContent st)")
    case True
    with False assms processAppendedSuffix_deferred [of render "drop (length (prevContent st)) c" "resetStart c st"]
    show ?thesis by (auto simp: fin watchCallback_append resetStart_fields)
  next
    case nsw: False
    show ?thesis
    proof (cases "c = [] \<or> \<not> startsWith (prevContent st) c")
      case True
      with False nsw assms show ?thesis
        by (simp add: fin watchCallback_rewind handleNonPrefixReplace_streaming resetStart_fields)
    next
      case tr: False
      with False nsw assms processAppendedSuffix_deferred [of render "[]" "resetStart c st"]
      show ?thesis by (auto simp: fin watchCallback_truncate resetStart_fields)
    qed
  qed
qed

lemma onUpdate_streaming:
  assumes "deferred st = []" and "\<not> (fin \<and> prevContent st \<noteq> [])"
  shows "sameScript (watchCallback render (c, fin) st) (onUpdate render parse (c, fin) st)"
  unfolding onUpdate_def
  by (rule hostTick_streaming) (rule watchCallback_streaming_deferred [OF assms])

lemma watchCallback_count:
  assumes "prevContent st \<noteq> []"
    and "startsWith c (prevContent st) \<or> (c \<noteq> [] \<and> startsWith (prevContent st) c)"
  shows "lastCompleteBlockCount st \<le> lastCompleteBlockCount (watchCallback render (c, False) st)"
proof (cases "startsWith c (prevContent st)")
  case True
  with assms processAppendedSuffix_count [of "resetStart c st" render "drop (length (prevContent st)) c"]
  show ?thesis by (simp add: watchCallback_append resetStart_fields)
next
  case False
  with assms processAppendedSuffix_count [of "resetStart c st" render "[]"]
  show ?thesis by (simp add: watchCallback_truncate resetStart_fields)
qed

lemma prevContent_watchCallback_streaming:
  assumes "\<not> (fin \<and> prevContent st \<noteq> [])"
  shows "prevContent (watchCallback render (c, fin) st) = c"
proof (cases "prevContent st = []")
  case True
  then show ?thesis by (simp add: watchCallback_fresh)
next
  case False
  with assms have fin: "fin = False" by simp
  show ?thesis
  proof (cases "startsWith c (prevContent st)")
    case True
    with False show ?thesis by (simp add: fin watchCallback_append)
  next
    case nsw: False
    show ?thesis
    proof (cases "c = [] \<or> \<not> startsWith (prevContent st) c")
      case True
      with False nsw show ?thesis
        by (simp add: fin watchCallback_rewind handleNonPrefixReplace_streaming)
    next
      case tr: False
      with False nsw show ?thesis by (simp add: fin watchCallback_truncate)
    qed
  qed
qed

lemma prevContent_onUpdate_streaming:
  assumes "deferred st = []" and "\<not> (fin \<and> prevContent st \<noteq> [])"
  shows "prevContent (onUpdate render parse (c, fin) st) = c"
  using onUpdate_streaming [OF assms, of render c parse] prevContent_watchCallback_streaming [OF assms(2), of render c]
  by (simp add: sameScript_def)

lemma startsWith_nonempty: "startsWith c prev \<Longrightarrow> prev \<noteq> [] \<Longrightarrow> c \<noteq> []"
  by (auto simp: startsWith_def)

lemma appendChain_count:
  "deferred st = [] \<Longrightarrow> prevContent st \<noteq> [] \<Longrightarrow> appendChain (prevContent st) cs \<Longrightarrow>
   lastCompleteBlockCount st
     \<le> lastCompleteBlockCount (runSession render parse (map (\<lambda>c. (c, False)) cs) st)"
proof (induction cs arbitrary: st)
  case Nil
  show ?case by simp
next
  case (Cons c cs)
  let ?st = "onUpdate render parse (c, False) st"
  from Cons.prems have sw: "startsWith c (prevContent st)" by simp
  have p: "prevContent ?st = c"
    using Cons.prems by (intro prevContent_onUpdate_streaming) simp_all
  have ne: "c \<noteq> []" using sw Cons.prems by (auto dest: startsWith_nonempty)
  have "sameScript (watchCallback render (c, False) st) ?st"
    using Cons.prems by (intro onUpdate_streaming) simp_all
  then have "lastCompleteBlockCount ?st = lastCompleteBlockCount (watchCallback render (c, False) st)"
    by (simp add: sameScript_def)
  with watchCallback_count [of st c render] sw Cons.prems
  have step: "lastCompleteBlockCount st \<le> lastCompleteBlockCount ?st" by simp
  have "lastCompleteBlockCount ?st
          \<le> lastCompleteBlockCount (runSession render parse (map (\<lambda>c. (c, False)) cs) ?st)"
    using Cons.prems p ne by (intro Cons.IH) (simp_all add: deferred_onUpdate)
  with step show ?case by simp
qed

lemma watchCallback_complete_deferred:
  assumes "prevContent st \<noteq> []" and "deferred st = []"
  shows "deferred (watchCallback render (c, True) st)
           = (if staticContainer st = None then [] else [FinalizeTask c])
       \<and> prevContent (watchCallback render (c, True) st) = prevContent st"
  using assms
  by (auto simp: watchCallback_def processContentNow_def finalizeAll_def
      setStreamingHtml_def nextTick_def emit_def Let_def split: option.splits)

lemma prevContent_onUpdate_nonempty:
  assumes d: "deferred st = []" and c: "c \<noteq> []"
  shows "prevContent (onUpdate render parse (c, fin) st) \<noteq> []"
proof (cases "fin \<and> prevContent st \<noteq> []")
  case False
  with d c show ?thesis by (simp add: prevContent_onUpdate_streaming)
next
  case True
  then have fin: "fin = True" and p: "prevContent st \<noteq> []" by simp_all
  note w = watchCallback_complete_deferred [OF p d, of render c]
  show ?thesis
  proof (cases "staticContainer st = None")
    case True
    with w have "deferred (watchCallback render (c, True) st) = []" by simp
    then have "sameScript (watchCallback render (c, True) st) (onUpdate render parse (c, True) st)"
      unfolding onUpdate_def by (intro hostTick_streaming) simp
    with w p show ?thesis by (simp add: sameScript_def fin)
  next
    case False
    with w have "deferred (watchCallback render (c, True) st) = [FinalizeTask c]" by simp
    from hostTick_finalize_script [OF this, of parse] c show ?thesis
      by (simp add: onUpdate_def fin)
  qed
qed

lemma start_count_nonempty_run:
  "deferred st = [] \<Longrightarrow> prevContent st \<noteq> [] \<Longrightarrow> \<forall>u\<in>set us. fst u \<noteq> [] \<Longrightarrow>
   count_list (emitted (runSession render parse us st)) Start = count_list (emitted st) Start"
proof (induction us arbitrary: st)
  case Nil
  show ?case by simp
next
  case (Cons u us)
  obtain c fin where u: "u = (c, fin)" by (cases u)
  let ?st = "onUpdate render parse (c, fin) st"
  from Cons.prems u have c: "c \<noteq> []" by simp
  have e: "count_list (emitted ?st) Start = count_list (emitted st) Start"
    using Cons.prems by (simp add: emitted_onUpdate)
  have "count_list (emitted (runSession render parse us ?st)) Start = count_list (emitted ?st) Start"
    using Cons.prems c
    by (intro Cons.IH) (simp_all add: deferred_onUpdate prevContent_onUpdate_nonempty)
  with e u show ?case by simp
qed






















section \<open>The controller on update sequences\<close>

text \<open>
  C1. After a completing update with final text \<open>s\<close> has been finalised, the static
  container is to hold the nodes of \<open>render s\<close>. The code finalises on a completing update
  that arrives at a non-empty snapshot, and there it falls short: in the session below the
  first update commits a block, so its flush empties the streaming container while the
  render key stays the HTML of the block \<open># b\<close>; the completing update with text \<open># b\<close>
  empties the static container, \<^verbatim>\<open>setStreamingHtml\<close> returns early because the render
  key already equals the full render, nothing is rendered again, and the flush finds no
  node to move. The static container ends empty, not with the nodes of the full render.
\<close>

theorem finalize_skips_write_after_flush:
  "prevContent (runSession sampleRender sampleParse
      [(''a'' @ [newline, newline] @ ''# b'', False)] initialState) = ''a'' @ [newline, newline] @ ''# b''
   \<and> lastRenderKey (runSession sampleRender sampleParse
      [(''a'' @ [newline, newline] @ ''# b'', False)] initialState) = sampleRender ''# b''
   \<and> streamingContainer (runSession sampleRender sampleParse
      [(''a'' @ [newline, newline] @ ''# b'', False)] initialState) = Some []
   \<and> emitted (runSession sampleRender sampleParse
      [(''a'' @ [newline, newline] @ ''# b'', False), (''# b'', True)] initialState) = [Start, Complete]
   \<and> staticContainer (runSession sampleRender sampleParse
      [(''a'' @ [newline, newline] @ ''# b'', False), (''# b'', True)] initialState) = Some []
   \<and> setInnerHTML sampleParse (sampleRender ''# b'') = [''<p># b</p>'']"
  by code_simp

text \<open>
  The session of the specification's scenario A, where no block was committed before the
  completing update, does end with the nodes of the full render.
\<close>

lemma finalize_scenario_A:
  "staticContainer (runSession sampleRender sampleParse
      [([], False), (''# Hi'', False), (''# Hi'' @ [newline] @ ''world'', False),
       (''# Hi'' @ [newline] @ ''world'', True)] initialState)
     = Some (setInnerHTML sampleParse (sampleRender (''# Hi'' @ [newline] @ ''world'')))"
  by code_simp







text \<open>
  C4. The claim as stated fails: an update with empty content that arrives at an empty
  snapshot emits the start event, and does so again each time. What holds: an update
  emits the start event, once, exactly when the snapshot is empty and either the start
  flag is off or the content of the update is empty; so a session from the initial state
  whose updates all carry non-empty content emits the start event exactly once.
\<close>

theorem start_event_emission:
  "count_list (emitted (onUpdate render parse (c, fin) st)) Start
     = count_list (emitted st) Start
       + (if prevContent st = [] \<and> (\<not> hasEmittedStart st \<or> c = []) then 1 else 0)
   \<and> (c \<noteq> [] \<and> (\<forall>u\<in>set us. fst u \<noteq> []) \<longrightarrow>
        count_list (emitted (runSession render parse ((c, fin) # us) initialState)) Start = 1)"
proof (intro conjI impI)
  show "count_list (emitted (onUpdate render parse (c, fin) st)) Start
     = count_list (emitted st) Start
       + (if prevContent st = [] \<and> (\<not> hasEmittedStart st \<or> c = []) then 1 else 0)"
    by (simp add: emitted_onUpdate)
next
  assume a: "c \<noteq> [] \<and> (\<forall>u\<in>set us. fst u \<noteq> [])"
  let ?st = "onUpdate render parse (c, fin) (initialState :: 'a controller)"
  have e: "count_list (emitted ?st) Start = 1"
    by (simp add: emitted_onUpdate initialState_def)
  have "count_list (emitted (runSession render parse us ?st)) Start = count_list (emitted ?st) Start"
    using a
    by (intro start_count_nonempty_run)
       (simp_all add: deferred_onUpdate prevContent_onUpdate_nonempty initialState_def)
  with e show "count_list (emitted (runSession render parse ((c, fin) # us) initialState)) Start = 1"
    by simp
qed

theorem start_event_emission_witness:
  "emitted (runSession sampleRender sampleParse
             [(''# Hi'', False), (''# Hi there'', False), (''# Hi there'', True)] initialState)
     = [Start, Complete]
   \<and> count_list (emitted (runSession sampleRender sampleParse
             [(''# Hi'', False), (''# Hi there'', False), (''# Hi there'', True)] initialState)) Start = 1"
proof -
  have ev: "emitted (runSession sampleRender sampleParse
             [(''# Hi'', False), (''# Hi there'', False), (''# Hi there'', True)] initialState)
     = [Start, Complete]"
    by code_simp
  from start_event_emission [of sampleRender sampleParse "''# Hi''" False initialState
      "[(''# Hi there'', False), (''# Hi there'', True)]"]
  show ?thesis unfolding ev by simp
qed

theorem start_event_counterexample:
  "emitted (runSession sampleRender sampleParse [([], False)] initialState) = [Start]
   \<and> emitted (runSession sampleRender sampleParse [([], False), ([], True), (''# Hi'', False)]
               initialState) = [Start, Start]"
  by code_simp

text \<open>
  C5. The claim as stated fails for a completing update: its content may well start
  with the snapshot, and the finalising callback sets the committed count to 0. What
  holds, at any state with no deferred callback pending: an update without the completion
  flag whose content starts with the non-empty snapshot does not lower the committed
  count; an update without the completion flag lowers it only on a fresh start (empty
  snapshot) or a rewind (the content neither extends the snapshot nor is a non-empty
  prefix of it); along a pure append sequence of such updates the count does not go
  down; and a completing update at a non-empty snapshot with the static container
  mounted sets it to 0.
\<close>

theorem committed_count_monotone:
  assumes "deferred st = []"
  shows "(prevContent st \<noteq> [] \<and> startsWith c (prevContent st)
            \<longrightarrow> lastCompleteBlockCount st
                  \<le> lastCompleteBlockCount (onUpdate render parse (c, False) st))
       \<and> (lastCompleteBlockCount (onUpdate render parse (c, False) st) < lastCompleteBlockCount st
            \<longrightarrow> prevContent st = []
                \<or> (\<not> startsWith c (prevContent st) \<and> (c = [] \<or> \<not> startsWith (prevContent st) c)))
       \<and> (prevContent st \<noteq> [] \<and> appendChain (prevContent st) cs
            \<longrightarrow> lastCompleteBlockCount st
                  \<le> lastCompleteBlockCount
                       (runSession render parse (map (\<lambda>c. (c, False)) cs) st))
       \<and> (prevContent st \<noteq> [] \<and> staticContainer st \<noteq> None
            \<longrightarrow> lastCompleteBlockCount (onUpdate render parse (c, True) st) = 0)"
proof -
  have "sameScript (watchCallback render (c, False) st) (onUpdate render parse (c, False) st)"
    using assms by (intro onUpdate_streaming) simp_all
  then have eq: "lastCompleteBlockCount (onUpdate render parse (c, False) st)
                = lastCompleteBlockCount (watchCallback render (c, False) st)"
    by (simp add: sameScript_def)
  have a: "lastCompleteBlockCount st \<le> lastCompleteBlockCount (onUpdate render parse (c, False) st)"
    if "prevContent st \<noteq> []"
      and "startsWith c (prevContent st) \<or> (c \<noteq> [] \<and> startsWith (prevContent st) c)"
    using watchCallback_count [OF that, of render] eq by simp
  from a have 1: "prevContent st \<noteq> [] \<and> startsWith c (prevContent st)
            \<longrightarrow> lastCompleteBlockCount st
                  \<le> lastCompleteBlockCount (onUpdate render parse (c, False) st)"
    by blast
  from a have 2: "lastCompleteBlockCount (onUpdate render parse (c, False) st) < lastCompleteBlockCount st
            \<longrightarrow> prevContent st = []
                \<or> (\<not> startsWith c (prevContent st) \<and> (c = [] \<or> \<not> startsWith (prevContent st) c))"
    by (meson not_le)
  have 4: "lastCompleteBlockCount (onUpdate render parse (c, True) st) = 0"
    if p: "prevContent st \<noteq> []" and m: "staticContainer st \<noteq> None"
  proof -
    from watchCallback_complete_deferred [OF p assms, of render c] m
    have "deferred (watchCallback render (c, True) st) = [FinalizeTask c]" by simp
    from hostTick_finalize_script [OF this, of parse] show ?thesis by (simp add: onUpdate_def)
  qed
  have 3: "prevContent st \<noteq> [] \<and> appendChain (prevContent st) cs
            \<longrightarrow> lastCompleteBlockCount st
                  \<le> lastCompleteBlockCount
                       (runSession render parse (map (\<lambda>c. (c, False)) cs) st)"
    using appendChain_count [OF assms, of cs render parse] by blast
  have 5: "prevContent st \<noteq> [] \<and> staticContainer st \<noteq> None
            \<longrightarrow> lastCompleteBlockCount (onUpdate render parse (c, True) st) = 0"
    using 4 by blast
  show ?thesis by (rule conjI [OF 1 conjI [OF 2 conjI [OF 3 5]]])
qed

theorem committed_count_monotone_witness:
  "deferred (runSession sampleRender sampleParse [(''a'', False)] initialState) = []
   \<and> prevContent (runSession sampleRender sampleParse [(''a'', False)] initialState) = ''a''
   \<and> startsWith (''a'' @ [newline, newline] @ ''# b'') ''a''
   \<and> lastCompleteBlockCount (runSession sampleRender sampleParse [(''a'', False)] initialState) = 0
   \<and> lastCompleteBlockCount (onUpdate sampleRender sampleParse (''a'' @ [newline, newline] @ ''# b'', False)
        (runSession sampleRender sampleParse [(''a'', False)] initialState)) = 1
   \<and> lastCompleteBlockCount (onUpdate sampleRender sampleParse (''a'' @ [newline, newline] @ ''# b'', True)
        (runSession sampleRender sampleParse [(''a'', False)] initialState)) = 0"
proof -
  let ?st = "runSession sampleRender sampleParse [(''a'', False)] (initialState :: string controller)"
  let ?c = "''a'' @ [newline, newline] @ ''# b''"
  have h: "deferred ?st = []" by code_simp
  have p: "prevContent ?st = ''a''" by code_simp
  have s: "startsWith ?c ''a''" by code_simp
  have m: "staticContainer ?st \<noteq> None" by code_simp
  have c0: "lastCompleteBlockCount ?st = 0" by code_simp
  have c1: "lastCompleteBlockCount (onUpdate sampleRender sampleParse (?c, False) ?st) = 1"
    by code_simp
  from committed_count_monotone [OF h, of ?c sampleRender sampleParse "[]"] h p s m c0 c1
  show ?thesis by simp
qed

theorem committed_count_counterexample:
  "lastCompleteBlockCount (runSession sampleRender sampleParse
      [(''a'' @ [newline, newline] @ ''# b'', False)] initialState) = 1
   \<and> prevContent (runSession sampleRender sampleParse
      [(''a'' @ [newline, newline] @ ''# b'', False)] initialState) = ''a'' @ [newline, newline] @ ''# b''
   \<and> startsWith (''a'' @ [newline, newline] @ ''# b c'') (''a'' @ [newline, newline] @ ''# b'')
   \<and> lastCompleteBlockCount (runSession sampleRender sampleParse
      [(''a'' @ [newline, newline] @ ''# b'', False), (''a'' @ [newline, newline] @ ''# b c'', True)]
      initialState) = 0"
  by code_simp

end
